theory Spec2Isabelle
  imports Main "HOL-Library.Multiset"
begin

section \<open>The store: nodes, pointers and memory errors\<close>

text \<open>
  \<^verbatim>\<open>bstree.cc\<close> works on heap-allocated \<^verbatim>\<open>hedger::Node\<close> objects linked by raw
  pointers (\<^verbatim>\<open>left\<close>, \<^verbatim>\<open>right\<close>, \<^verbatim>\<open>parent\<close>). Several properties of the tree depend on
  which cell a pointer names, so the model keeps an explicit store: a list of cells
  indexed by address. \<^verbatim>\<open>new\<close> appends a cell (the new address is the length of the
  store, so it is fresh), \<^verbatim>\<open>delete\<close> empties the cell and the address is never handed
  out again. \<^verbatim>\<open>nullptr\<close> is \<open>None\<close>. Reading or writing through \<^verbatim>\<open>nullptr\<close>, or through
  a pointer to a released cell, is undefined behaviour in C++; the model makes each one
  an error value.

  The key type \<^verbatim>\<open>hedger::S_T\<close> is an integer type that the code only compares
  (\<^verbatim>\<open><\<close>, \<^verbatim>\<open>>\<close>, \<^verbatim>\<open>==\<close>); it is modelled as \<open>int\<close>. The counters \<^verbatim>\<open>size_\<close>, \<^verbatim>\<open>nodeTot_\<close> and
  the depths are C \<^verbatim>\<open>int\<close>s on which the code computes (\<^verbatim>\<open>size_ + delta\<close>, \<^verbatim>\<open>nodeTot_++\<close>,
  \<^verbatim>\<open>currentDepth++\<close>, \<^verbatim>\<open>depth + 1\<close>). They are modelled as \<open>int\<close> with the 32-bit
  two's-complement wrap-around written out at every addition (\<open>wrap32\<close>): signed
  overflow is undefined in C++, and wraps on the usual targets.

  The payload \<^verbatim>\<open>void *data\<close> is kept as an opaque handle (\<open>None\<close> for \<^verbatim>\<open>nullptr\<close>); the
  memory it points to is not part of the model, so \<^verbatim>\<open>delete (int *) node->data\<close> has
  no effect on the store of nodes.
\<close>

type_synonym addr = nat
type_synonym ptr = "addr option"

record Node =
  key :: int
  data :: "nat option"
  left :: ptr
  right :: ptr
  parent :: ptr

type_synonym heap = "Node option list"

datatype error = NullDeref | UseAfterFree

text \<open>The value a 32-bit \<^verbatim>\<open>int\<close> holds after a sum \<open>x\<close> has been stored in it.\<close>

definition wrap32 :: "int \<Rightarrow> int" where
  "wrap32 x = (x + 2147483648) mod 4294967296 - 2147483648"

definition bindE :: "error + 'a \<Rightarrow> ('a \<Rightarrow> error + 'b) \<Rightarrow> error + 'b" where
  "bindE m f = (case m of Inl e \<Rightarrow> Inl e | Inr x \<Rightarrow> f x)"

text \<open>Reading \<^verbatim>\<open>p->field\<close>: the cell \<open>p\<close> points to, or the memory error.\<close>

definition load :: "heap \<Rightarrow> ptr \<Rightarrow> error + Node" where
  "load h p =
     (case p of
        None \<Rightarrow> Inl NullDeref
      | Some a \<Rightarrow>
          if a < length h
          then (case h ! a of None \<Rightarrow> Inl UseAfterFree | Some n \<Rightarrow> Inr n)
          else Inl UseAfterFree)"

text \<open>Writing \<^verbatim>\<open>p->field = v\<close>: \<open>f\<close> is the field update.\<close>

definition modify :: "heap \<Rightarrow> ptr \<Rightarrow> (Node \<Rightarrow> Node) \<Rightarrow> error + heap" where
  "modify h p f =
     (case p of
        None \<Rightarrow> Inl NullDeref
      | Some a \<Rightarrow> bindE (load h p) (\<lambda>n. Inr (h[a := Some (f n)])))"

text \<open>\<^verbatim>\<open>new hedger::Node(key)\<close>: a fresh address and the extended store.\<close>

definition new_node :: "heap \<Rightarrow> Node \<Rightarrow> addr \<times> heap" where
  "new_node h n = (length h, h @ [Some n])"

text \<open>\<^verbatim>\<open>delete node\<close>.\<close>

definition delete_node :: "heap \<Rightarrow> ptr \<Rightarrow> error + heap" where
  "delete_node h p =
     (case p of
        None \<Rightarrow> Inr h
      | Some a \<Rightarrow> bindE (load h p) (\<lambda>n. Inr (h[a := None])))"

text \<open>
  Modelled from the spec: the constructor \<^verbatim>\<open>Node(key)\<close> is declared in \<^verbatim>\<open>bstree.h\<close>,
  which is not among the sources. The spec's data model gives a node a key, an
  optional payload, child links that are "absent" until a child is attached, and a
  parent back-reference that is "absent for the root"; \<^verbatim>\<open>Add\<close> relies on this on its
  empty-tree path, where it sets no link of the new root. The payload the constructor
  installs is not known, so it is the parameter \<open>d\<close>.
\<close>

definition Node_ctor :: "int \<Rightarrow> nat option \<Rightarrow> Node" where
  "Node_ctor k d = \<lparr>key = k, data = d, left = None, right = None, parent = None\<rparr>"

section \<open>The tree object\<close>

text \<open>
  The fields of \<^verbatim>\<open>BSTree\<close> together with the store its nodes live in. A name cannot
  end in an underscore here, so the members \<^verbatim>\<open>root_\<close>, \<^verbatim>\<open>size_\<close>, \<^verbatim>\<open>maxSize_\<close> and
  \<^verbatim>\<open>nodeTot_\<close> carry the suffix \<open>m\<close>.
\<close>

record BSTree =
  heap :: heap
  root_m :: ptr
  size_m :: int
  maxSize_m :: int
  nodeTot_m :: int

text \<open>\<^verbatim>\<open>BSTree::BSTree()\<close>, on an empty store.\<close>

definition BSTree_new :: BSTree where
  "BSTree_new = \<lparr>heap = [], root_m = None, size_m = 0, maxSize_m = 0, nodeTot_m = 0\<rparr>"

text \<open>\<^verbatim>\<open>BSTree::ChangeSize\<close>.\<close>

definition ChangeSize :: "int \<Rightarrow> BSTree \<Rightarrow> BSTree" where
  "ChangeSize delta s =
     (if wrap32 (size_m s + delta) > 0 then s\<lparr>size_m := wrap32 (size_m s + delta)\<rparr> else s)"

text \<open>
  Modelled from the spec: \<^verbatim>\<open>Size()\<close> is declared in \<^verbatim>\<open>bstree.h\<close>, which is not among the
  sources; the spec gives it as the "current live node count", the field that
  \<^verbatim>\<open>ChangeSize\<close> maintains.
\<close>

definition Size :: "BSTree \<Rightarrow> int" where
  "Size s = size_m s"

section \<open>Add\<close>

text \<open>
  The \<^verbatim>\<open>while\<close> loop of \<^verbatim>\<open>Add\<close> (lines 83 to 92). The store is not written during the
  descent, and \<^verbatim>\<open>node->key\<close> is the key \<open>k\<close> the new node was built with. On a store
  with a cycle the loop does not return: the value is \<open>None\<close>.
\<close>

partial_function (option) Add_descend ::
  "heap \<Rightarrow> int \<Rightarrow> ptr \<Rightarrow> ptr \<Rightarrow> int \<Rightarrow> (error + ptr \<times> int) option" where
  "Add_descend h k currentNode candidateParent currentDepth =
     (case currentNode of
        None \<Rightarrow> Some (Inr (candidateParent, currentDepth))
      | Some a \<Rightarrow>
          (case load h currentNode of
             Inl e \<Rightarrow> Some (Inl e)
           | Inr n \<Rightarrow>
               if k < key n
               then Add_descend h k (left n) currentNode (wrap32 (currentDepth + 1))
               else Add_descend h k (right n) currentNode (wrap32 (currentDepth + 1))))"

text \<open>Lines 101 to 108: linking the new node below the candidate parent.\<close>

definition Add_attach :: "heap \<Rightarrow> addr \<Rightarrow> ptr \<Rightarrow> error + heap" where
  "Add_attach h node candidateParent =
     bindE (modify h (Some node) (\<lambda>n. n\<lparr>parent := candidateParent\<rparr>)) (\<lambda>h1.
     bindE (load h1 (Some node)) (\<lambda>n.
     bindE (load h1 (parent n)) (\<lambda>pn.
     bindE (if key n < key pn
            then modify h1 (parent n) (\<lambda>c. c\<lparr>left := Some node\<rparr>)
            else modify h1 (parent n) (\<lambda>c. c\<lparr>right := Some node\<rparr>)) (\<lambda>h2.
     bindE (modify h2 (Some node) (\<lambda>c. c\<lparr>left := None\<rparr>)) (\<lambda>h3.
     modify h3 (Some node) (\<lambda>c. c\<lparr>right := None\<rparr>))))))"

text \<open>
  \<^verbatim>\<open>BSTree::Add(key, depth)\<close>. The out-parameter \<^verbatim>\<open>int *depth\<close> is \<open>None\<close> for
  \<^verbatim>\<open>nullptr\<close> and \<open>Some v\<close> for a pointer to an \<^verbatim>\<open>int\<close> holding \<open>v\<close>; the result carries
  the returned node, the caller's \<^verbatim>\<open>int\<close> after the call, and the tree.
\<close>

definition Add ::
  "nat option \<Rightarrow> int \<Rightarrow> int option \<Rightarrow> BSTree \<Rightarrow> (error + addr \<times> int option \<times> BSTree) option" where
  "Add d k depth s =
     (case new_node (heap s) (Node_ctor k d) of
        (node, h0) \<Rightarrow>
          if root_m s = None
          then (case depth of
                  None \<Rightarrow> Some (Inl NullDeref)
                | Some v \<Rightarrow>
                    Some (Inr (node, Some 1,
                      s\<lparr>heap := h0, root_m := Some node,
                        nodeTot_m := wrap32 (nodeTot_m s + 1)\<rparr>)))
          else
            Option.bind (Add_descend h0 k (root_m s) None 0) (\<lambda>r.
              Some (bindE r (\<lambda>(candidateParent, currentDepth).
                bindE (Add_attach h0 node candidateParent) (\<lambda>h1.
                  let s1 = ChangeSize 1 (s\<lparr>heap := h1\<rparr>)
                  in Inr (node,
                          (case depth of
                             None \<Rightarrow> None
                           | Some v \<Rightarrow> Some (wrap32 (currentDepth + 1))),
                          s1\<lparr>nodeTot_m := wrap32 (nodeTot_m s1 + 1)\<rparr>))))))"

text \<open>
  A run of insertions: one \<^verbatim>\<open>Add\<close> per key, in order, as in the loop of the harness
  (\<^verbatim>\<open>treebench.cc\<close>, lines 142 to 144, there on the scapegoat variant of the tree).
  Every call is given a valid depth pointer, which the first call needs.
\<close>

fun add_all :: "nat option \<Rightarrow> int list \<Rightarrow> BSTree \<Rightarrow> (error + BSTree) option" where
  "add_all d [] s = Some (Inr s)"
| "add_all d (k # ks) s =
     Option.bind (Add d k (Some 0) s) (\<lambda>r.
       case r of Inl e \<Rightarrow> Some (Inl e) | Inr (node, depth, s') \<Rightarrow> add_all d ks s')"

section \<open>Find\<close>

text \<open>\<^verbatim>\<open>BSTree::FindRecurse\<close> and \<^verbatim>\<open>BSTree::Find\<close>.\<close>

partial_function (option) FindRecurse :: "heap \<Rightarrow> int \<Rightarrow> ptr \<Rightarrow> (error + ptr) option" where
  "FindRecurse h k node =
     (case node of
        None \<Rightarrow> Some (Inr None)
      | Some a \<Rightarrow>
          (case load h node of
             Inl e \<Rightarrow> Some (Inl e)
           | Inr n \<Rightarrow>
               if key n = k then Some (Inr node)
               else if key n > k then FindRecurse h k (left n)
               else if key n < k then FindRecurse h k (right n)
               else Some (Inr None)))"

definition Find :: "int \<Rightarrow> BSTree \<Rightarrow> (error + ptr) option" where
  "Find k s = FindRecurse (heap s) k (root_m s)"

section \<open>Delete\<close>

text \<open>\<^verbatim>\<open>BSTree::FindMin\<close>.\<close>

partial_function (option) FindMin :: "heap \<Rightarrow> ptr \<Rightarrow> (error + ptr) option" where
  "FindMin h current =
     (case load h current of
        Inl e \<Rightarrow> Some (Inl e)
      | Inr n \<Rightarrow> if left n \<noteq> None then FindMin h (left n) else Some (Inr current))"

text \<open>
  "Case 0" of \<^verbatim>\<open>DeleteNode\<close> (lines 152 to 159 and, with the other child, 161 to 168):
  the parent's link to \<open>node\<close> is pointed at \<open>successor\<close>, the node is released and
  \<open>successor\<close> is returned. \<^verbatim>\<open>node->parent->left\<close> is read with no check of
  \<^verbatim>\<open>node->parent\<close>, and nothing is written to \<open>successor\<close>.
\<close>

definition splice :: "heap \<Rightarrow> ptr \<Rightarrow> ptr \<Rightarrow> error + ptr \<times> heap" where
  "splice h node successor =
     bindE (load h node) (\<lambda>n.
     bindE (load h (parent n)) (\<lambda>pn.
     bindE (if left pn = node then modify h (parent n) (\<lambda>c. c\<lparr>left := successor\<rparr>)
            else if right pn = node then modify h (parent n) (\<lambda>c. c\<lparr>right := successor\<rparr>)
            else Inr h) (\<lambda>h1.
     bindE (delete_node h1 node) (\<lambda>h2.
     Inr (successor, h2)))))"

text \<open>
  "Case 2" of \<^verbatim>\<open>DeleteNode\<close> up to the recursive call (lines 174 to 179): the key and
  the payload of \<open>successor\<close> move into \<open>node\<close>. The result is the store together with
  the two arguments of the recursive call, \<^verbatim>\<open>node->right\<close> and \<^verbatim>\<open>successor->key\<close>, as
  they are read after the writes.
\<close>

definition relocate :: "heap \<Rightarrow> ptr \<Rightarrow> ptr \<Rightarrow> error + heap \<times> ptr \<times> int" where
  "relocate h node successor =
     bindE (load h successor) (\<lambda>sn.
     bindE (modify h node (\<lambda>c. c\<lparr>key := key sn\<rparr>)) (\<lambda>h1.
     bindE (load h1 successor) (\<lambda>sn1.
     bindE (modify h1 node (\<lambda>c. c\<lparr>data := data sn1\<rparr>)) (\<lambda>h2.
     bindE (modify h2 successor (\<lambda>c. c\<lparr>data := None\<rparr>)) (\<lambda>h3.
     bindE (load h3 node) (\<lambda>n3.
     bindE (load h3 successor) (\<lambda>sn3.
     Inr (h3, right n3, key sn3))))))))"

text \<open>
  \<^verbatim>\<open>BSTree::DeleteNode\<close>. The assignments \<^verbatim>\<open>node->left = DeleteNode(...)\<close> write to
  \<open>node\<close> in the store the recursive call returns.
\<close>

partial_function (option) DeleteNode :: "heap \<Rightarrow> ptr \<Rightarrow> int \<Rightarrow> (error + ptr \<times> heap) option" where
  "DeleteNode h node k =
     (case node of
        None \<Rightarrow> Some (Inr (None, h))
      | Some a \<Rightarrow>
          (case load h node of
             Inl e \<Rightarrow> Some (Inl e)
           | Inr n \<Rightarrow>
               if k < key n then
                 Option.bind (DeleteNode h (left n) k) (\<lambda>r.
                   Some (bindE r (\<lambda>(p, h1).
                     bindE (modify h1 node (\<lambda>c. c\<lparr>left := p\<rparr>)) (\<lambda>h2. Inr (node, h2)))))
               else if k > key n then
                 Option.bind (DeleteNode h (right n) k) (\<lambda>r.
                   Some (bindE r (\<lambda>(p, h1).
                     bindE (modify h1 node (\<lambda>c. c\<lparr>right := p\<rparr>)) (\<lambda>h2. Inr (node, h2)))))
               else if left n = None then Some (splice h node (right n))
               else if right n = None then Some (splice h node (left n))
               else
                 Option.bind (FindMin h (right n)) (\<lambda>m.
                   case bindE m (\<lambda>successor. relocate h node successor) of
                     Inl e \<Rightarrow> Some (Inl e)
                   | Inr (h1, r1, k1) \<Rightarrow>
                       Option.bind (DeleteNode h1 r1 k1) (\<lambda>r.
                         Some (bindE r (\<lambda>(p, h2).
                           bindE (modify h2 node (\<lambda>c. c\<lparr>right := p\<rparr>)) (\<lambda>h3.
                             Inr (node, h3))))))))"

text \<open>\<^verbatim>\<open>BSTree::DeleteKey\<close>: the node \<^verbatim>\<open>DeleteNode\<close> returns is dropped.\<close>

definition DeleteKey :: "int \<Rightarrow> BSTree \<Rightarrow> (error + bool \<times> BSTree) option" where
  "DeleteKey k s =
     Option.bind (Find k s) (\<lambda>f.
       case f of
         Inl e \<Rightarrow> Some (Inl e)
       | Inr node \<Rightarrow>
           if node \<noteq> None
           then Option.bind (DeleteNode (heap s) node k) (\<lambda>r.
                  Some (bindE r (\<lambda>(p, h1). Inr (True, s\<lparr>heap := h1\<rparr>))))
           else Some (Inr (False, s)))"

section \<open>Teardown\<close>

text \<open>
  \<^verbatim>\<open>BSTree::DeleteRecursive\<close>. The second argument, \<open>trace\<close>, records the addresses
  passed to \<^verbatim>\<open>delete node\<close>, in the order of the calls. \<^verbatim>\<open>node->right\<close> is read after the walk of
  the left subtree has returned.
\<close>

partial_function (option) DeleteRecursive ::
  "heap \<Rightarrow> addr list \<Rightarrow> ptr \<Rightarrow> (error + heap \<times> addr list) option" where
  "DeleteRecursive h trace node =
     (case node of
        None \<Rightarrow> Some (Inr (h, trace))
      | Some a \<Rightarrow>
          (case load h node of
             Inl e \<Rightarrow> Some (Inl e)
           | Inr n \<Rightarrow>
               if data n \<noteq> None then
                 Option.bind (DeleteRecursive h trace (left n)) (\<lambda>r1.
                   case bindE r1 (\<lambda>(h1, rel1). bindE (load h1 node) (\<lambda>n1. Inr (h1, rel1, right n1))) of
                     Inl e \<Rightarrow> Some (Inl e)
                   | Inr (h1, rel1, rt) \<Rightarrow>
                       Option.bind (DeleteRecursive h1 rel1 rt) (\<lambda>r2.
                         Some (bindE r2 (\<lambda>(h2, rel2).
                           bindE (modify h2 node (\<lambda>c. c\<lparr>data := None\<rparr>)) (\<lambda>h3.
                           bindE (delete_node h3 node) (\<lambda>h4.
                             Inr (h4, rel2 @ [a])))))))
               else Some (Inr (h, trace))))"

text \<open>\<^verbatim>\<open>BSTree::~BSTree\<close>.\<close>

definition BSTree_dtor :: "BSTree \<Rightarrow> (error + heap \<times> addr list) option" where
  "BSTree_dtor s = DeleteRecursive (heap s) [] (root_m s)"

section \<open>Diagnostics\<close>

text \<open>\<^verbatim>\<open>BSTree::MaxDepthRecurse\<close> and \<^verbatim>\<open>BSTree::MaxDepth\<close>; the \<^verbatim>\<open>printf\<close> is left out.\<close>

partial_function (option) MaxDepthRecurse ::
  "heap \<Rightarrow> ptr \<Rightarrow> int \<Rightarrow> int \<Rightarrow> (error + int) option" where
  "MaxDepthRecurse h node depth max_depth =
     (case load h node of
        Inl e \<Rightarrow> Some (Inl e)
      | Inr n \<Rightarrow>
          if left n = None \<and> right n = None
          then Some (Inr (if depth > max_depth then depth else max_depth))
          else
            Option.bind
              (if left n \<noteq> None
               then MaxDepthRecurse h (left n) (wrap32 (depth + 1)) max_depth
               else Some (Inr max_depth)) (\<lambda>r.
              case r of
                Inl e \<Rightarrow> Some (Inl e)
              | Inr m1 \<Rightarrow>
                  if right n \<noteq> None
                  then MaxDepthRecurse h (right n) (wrap32 (depth + 1)) m1
                  else Some (Inr m1)))"

definition MaxDepth :: "BSTree \<Rightarrow> (error + int) option" where
  "MaxDepth s = (if root_m s \<noteq> None then MaxDepthRecurse (heap s) (root_m s) 0 0 else Some (Inr 0))"

text \<open>
  \<^verbatim>\<open>BSTree::Print\<close>, the pre-order traversal: one row (node, key, parent, left, right)
  per \<^verbatim>\<open>printf\<close>.
\<close>

partial_function (option) Print_from ::
  "heap \<Rightarrow> ptr \<Rightarrow> (error + (ptr \<times> int \<times> ptr \<times> ptr \<times> ptr) list) option" where
  "Print_from h node =
     (case load h node of
        Inl e \<Rightarrow> Some (Inl e)
      | Inr n \<Rightarrow>
          Option.bind
            (if left n \<noteq> None then Print_from h (left n) else Some (Inr [])) (\<lambda>r1.
            case r1 of
              Inl e \<Rightarrow> Some (Inl e)
            | Inr rows1 \<Rightarrow>
                Option.bind
                  (if right n \<noteq> None then Print_from h (right n) else Some (Inr [])) (\<lambda>r2.
                  Some (bindE r2 (\<lambda>rows2.
                    Inr ((node, key n, parent n, left n, right n) # rows1 @ rows2))))))"

definition Print :: "ptr \<Rightarrow> BSTree \<Rightarrow> (error + (ptr \<times> int \<times> ptr \<times> ptr \<times> ptr) list) option" where
  "Print node s =
     (if node = None
      then (if root_m s = None then Some (Inr []) else Print_from (heap s) (root_m s))
      else Print_from (heap s) node)"

section \<open>The tree a store holds\<close>

text \<open>
  The properties below speak about the tree that is reachable from a pointer. A
  \<open>shape\<close> is that tree as a value: each node with its address and its key. The
  predicate \<open>tree_at h p t\<close> says that following \<^verbatim>\<open>left\<close> and \<^verbatim>\<open>right\<close> from \<open>p\<close> in the
  store \<open>h\<close> reads exactly \<open>t\<close>, every node on the way being a live cell. The parent
  back-references play no part in it.
\<close>

datatype shape = Tip | Fork shape addr int shape

fun tree_at :: "heap \<Rightarrow> ptr \<Rightarrow> shape \<Rightarrow> bool" where
  "tree_at h p Tip = (p = None)"
| "tree_at h p (Fork l a k r) =
     (p = Some a \<and>
      (case load h p of
         Inl e \<Rightarrow> False
       | Inr n \<Rightarrow> key n = k \<and> tree_at h (left n) l \<and> tree_at h (right n) r))"

text \<open>Addresses and keys of a shape, in order (left subtree, node, right subtree).\<close>

fun addrs :: "shape \<Rightarrow> addr list" where
  "addrs Tip = []"
| "addrs (Fork l a k r) = addrs l @ a # addrs r"

fun keys :: "shape \<Rightarrow> int list" where
  "keys Tip = []"
| "keys (Fork l a k r) = keys l @ k # keys r"

text \<open>
  A tree object is well formed for a shape when its root reads that shape and no cell
  occurs twice in it (the links form a tree, not a graph with sharing).
\<close>

definition wf_tree :: "BSTree \<Rightarrow> shape \<Rightarrow> bool" where
  "wf_tree s t = (tree_at (heap s) (root_m s) t \<and> distinct (addrs t))"

text \<open>
  The ordering invariant of the spec (\<open>bst\<close>: left subtree strictly below the node's
  key, right subtree strictly above), and the weaker order the descent of \<^verbatim>\<open>Add\<close>
  maintains for any keys (\<open>ordered\<close>: an equal key may sit in the right subtree).
\<close>

fun bst :: "shape \<Rightarrow> bool" where
  "bst Tip = True"
| "bst (Fork l a k r) =
     (bst l \<and> bst r \<and> (\<forall>x \<in> set (keys l). x < k) \<and> (\<forall>x \<in> set (keys r). k < x))"

fun ordered :: "shape \<Rightarrow> bool" where
  "ordered Tip = True"
| "ordered (Fork l a k r) =
     (ordered l \<and> ordered r \<and> (\<forall>x \<in> set (keys l). x < k) \<and> (\<forall>x \<in> set (keys r). k \<le> x))"

text \<open>
  What \<^verbatim>\<open>Add\<close> does, read on shapes: \<open>ins b k t\<close> hangs a new leaf with address \<open>b\<close> and
  key \<open>k\<close> where the descent (left when \<open>k\<close> is smaller, right otherwise) leaves \<open>t\<close>;
  \<open>ins_parent\<close> is the last node of that descent and \<open>ins_depth\<close> the number of nodes
  on it.
\<close>

fun ins :: "addr \<Rightarrow> int \<Rightarrow> shape \<Rightarrow> shape" where
  "ins b k Tip = Fork Tip b k Tip"
| "ins b k (Fork l a x r) = (if k < x then Fork (ins b k l) a x r else Fork l a x (ins b k r))"

fun ins_parent :: "int \<Rightarrow> shape \<Rightarrow> ptr \<Rightarrow> ptr" where
  "ins_parent k Tip cp = cp"
| "ins_parent k (Fork l a x r) cp =
     (if k < x then ins_parent k l (Some a) else ins_parent k r (Some a))"

fun ins_depth :: "int \<Rightarrow> shape \<Rightarrow> int" where
  "ins_depth k Tip = 0"
| "ins_depth k (Fork l a x r) = 1 + (if k < x then ins_depth k l else ins_depth k r)"

text \<open>
  The lookup of the spec, in its words: "equal: return; less: recurse left; greater:
  recurse right; exhausted: absent".
\<close>

fun lookup :: "int \<Rightarrow> shape \<Rightarrow> ptr" where
  "lookup k Tip = None"
| "lookup k (Fork l a x r) = (if x = k then Some a else if k < x then lookup k l else lookup k r)"

text \<open>
  The store after \<^verbatim>\<open>Add\<close> has linked a new node with key \<open>k\<close> and payload \<open>d\<close> below the
  cell \<open>c\<close>, whose content was \<open>pn\<close>.
\<close>

definition attached :: "heap \<Rightarrow> int \<Rightarrow> nat option \<Rightarrow> addr \<Rightarrow> Node \<Rightarrow> heap" where
  "attached h k d c pn =
     (h @ [Some \<lparr>key = k, data = d, left = None, right = None, parent = Some c\<rparr>])
       [c := Some (if k < key pn then pn\<lparr>left := Some (length h)\<rparr>
                   else pn\<lparr>right := Some (length h)\<rparr>)]"

text \<open>
  The in-order walk of the nodes reachable from a pointer. \<^verbatim>\<open>bstree.cc\<close> has no
  in-order traversal of its own (\<^verbatim>\<open>Print\<close> is pre-order); this walk is the yardstick
  for the ordering property.
\<close>

partial_function (option) InOrder :: "heap \<Rightarrow> ptr \<Rightarrow> (error + int list) option" where
  "InOrder h node =
     (case node of
        None \<Rightarrow> Some (Inr [])
      | Some a \<Rightarrow>
          (case load h node of
             Inl e \<Rightarrow> Some (Inl e)
           | Inr n \<Rightarrow>
               Option.bind (InOrder h (left n)) (\<lambda>r1.
                 case r1 of
                   Inl e \<Rightarrow> Some (Inl e)
                 | Inr xs \<Rightarrow>
                     Option.bind (InOrder h (right n)) (\<lambda>r2.
                       Some (bindE r2 (\<lambda>ys. Inr (xs @ key n # ys)))))))"

text \<open>
  What the teardown is measured against: the addresses of a shape children first
  (left subtree, right subtree, node), the condition that every node of a shape carries
  a payload, and the store with a list of cells released.
\<close>

fun postorder :: "shape \<Rightarrow> addr list" where
  "postorder Tip = []"
| "postorder (Fork l a k r) = postorder l @ postorder r @ [a]"

fun has_payloads :: "heap \<Rightarrow> shape \<Rightarrow> bool" where
  "has_payloads h Tip = True"
| "has_payloads h (Fork l a k r) =
     ((case load h (Some a) of Inl e \<Rightarrow> False | Inr n \<Rightarrow> data n \<noteq> None) \<and>
      has_payloads h l \<and> has_payloads h r)"

definition released :: "heap \<Rightarrow> addr list \<Rightarrow> heap" where
  "released h as = map (\<lambda>i. if i \<in> set as then None else h ! i) [0..<length h]"

section \<open>Example trees\<close>

text \<open>The tree after \<^verbatim>\<open>Add(1)\<close>, \<^verbatim>\<open>Add(2)\<close>, \<^verbatim>\<open>Add(3)\<close> with payload handle 7: a chain.\<close>

definition chain_123 :: BSTree where
  "chain_123 =
     \<lparr>heap = [Some \<lparr>key = 1, data = Some 7, left = None, right = Some 1, parent = None\<rparr>,
              Some \<lparr>key = 2, data = Some 7, left = None, right = Some 2, parent = Some 0\<rparr>,
              Some \<lparr>key = 3, data = Some 7, left = None, right = None, parent = Some 1\<rparr>],
      root_m = Some 0, size_m = 2, maxSize_m = 0, nodeTot_m = 3\<rparr>"

text \<open>The tree after \<^verbatim>\<open>Add(5)\<close> on an empty tree, and after a second \<^verbatim>\<open>Add(5)\<close>.\<close>

definition single_5 :: BSTree where
  "single_5 =
     \<lparr>heap = [Some \<lparr>key = 5, data = Some 7, left = None, right = None, parent = None\<rparr>],
      root_m = Some 0, size_m = 0, maxSize_m = 0, nodeTot_m = 1\<rparr>"

definition double_5 :: BSTree where
  "double_5 =
     \<lparr>heap = [Some \<lparr>key = 5, data = Some 7, left = None, right = Some 1, parent = None\<rparr>,
              Some \<lparr>key = 5, data = Some 7, left = None, right = None, parent = Some 0\<rparr>],
      root_m = Some 0, size_m = 1, maxSize_m = 0, nodeTot_m = 2\<rparr>"

text \<open>The tree after \<^verbatim>\<open>Add(2)\<close>, \<^verbatim>\<open>Add(1)\<close>, \<^verbatim>\<open>Add(3)\<close>, and what \<^verbatim>\<open>DeleteKey(1)\<close> makes of it.\<close>

definition tree_213 :: BSTree where
  "tree_213 =
     \<lparr>heap = [Some \<lparr>key = 2, data = Some 7, left = Some 1, right = Some 2, parent = None\<rparr>,
              Some \<lparr>key = 1, data = Some 7, left = None, right = None, parent = Some 0\<rparr>,
              Some \<lparr>key = 3, data = Some 7, left = None, right = None, parent = Some 0\<rparr>],
      root_m = Some 0, size_m = 2, maxSize_m = 0, nodeTot_m = 3\<rparr>"

definition tree_213_less_1 :: BSTree where
  "tree_213_less_1 =
     \<lparr>heap = [Some \<lparr>key = 2, data = Some 7, left = None, right = Some 2, parent = None\<rparr>,
              None,
              Some \<lparr>key = 3, data = Some 7, left = None, right = None, parent = Some 0\<rparr>],
      root_m = Some 0, size_m = 2, maxSize_m = 0, nodeTot_m = 3\<rparr>"

text \<open>The chain of keys 1, 2, 3 after \<^verbatim>\<open>DeleteKey(2)\<close>: cell 1 is released.\<close>

definition chain_123_less_2 :: BSTree where
  "chain_123_less_2 =
     \<lparr>heap = [Some \<lparr>key = 1, data = Some 7, left = None, right = Some 2, parent = None\<rparr>,
              None,
              Some \<lparr>key = 3, data = Some 7, left = None, right = None, parent = Some 1\<rparr>],
      root_m = Some 0, size_m = 2, maxSize_m = 0, nodeTot_m = 3\<rparr>"

text \<open>The tree of keys 2, 1, 3 when the constructor installs no payload.\<close>

definition no_payload_213 :: BSTree where
  "no_payload_213 =
     \<lparr>heap = [Some \<lparr>key = 2, data = None, left = Some 1, right = Some 2, parent = None\<rparr>,
              Some \<lparr>key = 1, data = None, left = None, right = None, parent = Some 0\<rparr>,
              Some \<lparr>key = 3, data = None, left = None, right = None, parent = Some 0\<rparr>],
      root_m = Some 0, size_m = 2, maxSize_m = 0, nodeTot_m = 3\<rparr>"

section \<open>Executing the model\<close>

text \<open>The recursion equations of the loops serve as code equations.\<close>

declare Add_descend.simps [code]
declare FindRecurse.simps [code]
declare FindMin.simps [code]
declare DeleteNode.simps [code]
declare DeleteRecursive.simps [code]
declare MaxDepthRecurse.simps [code]
declare Print_from.simps [code]
declare InOrder.simps [code]

section \<open>Arithmetic of the counters\<close>

lemma wrap32_id: "- 2147483648 \<le> x \<Longrightarrow> x < 2147483648 \<Longrightarrow> wrap32 x = x"
  by (simp add: wrap32_def)

lemma wrap32_idem: "wrap32 (wrap32 x) = wrap32 x"
  by (simp add: wrap32_def)

lemma wrap32_add_left: "wrap32 (wrap32 x + y) = wrap32 (x + y)"
proof -
  have "((x + 2147483648) mod 4294967296 + y) mod 4294967296 =
        (x + 2147483648 + y) mod 4294967296"
    by (rule mod_add_left_eq)
  then show ?thesis by (simp add: wrap32_def algebra_simps)
qed

text \<open>At the largest \<^verbatim>\<open>int\<close> the sum in \<^verbatim>\<open>ChangeSize(1)\<close> is not positive: the size stays.\<close>

lemma ChangeSize_at_max: "size_m s = 2147483647 \<Longrightarrow> ChangeSize 1 s = s"
  by (simp add: ChangeSize_def wrap32_def)

section \<open>Reading the store\<close>

lemma bindE_Inr: "bindE (Inr x) f = f x"
  by (simp add: bindE_def)

lemma bindE_Inl: "bindE (Inl e) f = Inl e"
  by (simp add: bindE_def)

lemma load_None: "load h None = Inl NullDeref"
  by (simp add: load_def)

lemma load_Some: "load h (Some a) = Inr n \<longleftrightarrow> a < length h \<and> h ! a = Some n"
  by (auto simp: load_def split: option.splits)

lemma tree_at_None [simp]: "tree_at h None t \<longleftrightarrow> t = Tip"
  by (cases t) auto

lemma tree_at_frame:
  "tree_at h p t \<Longrightarrow> (\<forall>a \<in> set (addrs t). load h' (Some a) = load h (Some a)) \<Longrightarrow> tree_at h' p t"
proof (induction t arbitrary: p)
  case Tip
  then show ?case by simp
next
  case (Fork l a k r)
  from Fork.prems(1) obtain n where p: "p = Some a" and n: "load h (Some a) = Inr n"
    and k: "key n = k" and l: "tree_at h (left n) l" and r: "tree_at h (right n) r"
    by (auto split: sum.splits)
  from Fork.prems(2) have n': "load h' (Some a) = Inr n" using n by simp
  have "tree_at h' (left n) l" using Fork.IH(1)[OF l] Fork.prems(2) by simp
  moreover have "tree_at h' (right n) r" using Fork.IH(2)[OF r] Fork.prems(2) by simp
  ultimately show ?case using p n' k by simp
qed

lemma tree_at_addrs_live:
  "tree_at h p t \<Longrightarrow> a \<in> set (addrs t) \<Longrightarrow> \<exists>n. load h (Some a) = Inr n"
  by (induction t arbitrary: p) (auto split: sum.splits)

lemma tree_at_addrs_bound:
  "tree_at h p t \<Longrightarrow> a \<in> set (addrs t) \<Longrightarrow> a < length h"
  using tree_at_addrs_live [of h p t a] by (auto simp: load_Some)

section \<open>Shapes under insertion\<close>

lemma ins_parent_in:
  "t \<noteq> Tip \<Longrightarrow> \<exists>c. ins_parent k t cp = Some c \<and> c \<in> set (addrs t)"
proof (induction t arbitrary: cp)
  case Tip
  then show ?case by simp
next
  case (Fork l a x r)
  show ?case
  proof (cases "k < x")
    case True
    then show ?thesis using Fork.IH(1)[of "Some a"] by (cases l) auto
  next
    case False
    then show ?thesis using Fork.IH(2)[of "Some a"] by (cases r) auto
  qed
qed

lemma set_addrs_ins [simp]: "set (addrs (ins b k t)) = insert b (set (addrs t))"
  by (induction t) auto

lemma distinct_addrs_ins: "distinct (addrs t) \<Longrightarrow> b \<notin> set (addrs t) \<Longrightarrow> distinct (addrs (ins b k t))"
  by (induction t) auto

lemma size_ins [simp]: "length (addrs (ins b k t)) = Suc (length (addrs t))"
  by (induction t) auto

lemma mset_keys_ins [simp]: "mset (keys (ins b k t)) = add_mset k (mset (keys t))"
  by (induction t) auto

lemma set_keys_ins [simp]: "set (keys (ins b k t)) = insert k (set (keys t))"
  by (induction t) auto

lemma ordered_ins: "ordered t \<Longrightarrow> ordered (ins b k t)"
  by (induction t) auto

lemma bst_ins: "bst t \<Longrightarrow> k \<notin> set (keys t) \<Longrightarrow> bst (ins b k t)"
  by (induction t) auto

lemma ordered_sorted: "ordered t \<Longrightarrow> sorted (keys t)"
  by (induction t) (force simp: sorted_append)+

lemma bst_sorted: "bst t \<Longrightarrow> sorted_wrt (<) (keys t)"
  by (induction t) (auto simp: sorted_wrt_append intro: less_trans)

lemma ordered_distinct_bst: "ordered t \<Longrightarrow> distinct (keys t) \<Longrightarrow> bst t"
proof (induction t)
  case Tip
  then show ?case by simp
next
  case (Fork l a k r)
  from Fork.prems have "\<forall>x \<in> set (keys r). k \<le> x" and "k \<notin> set (keys r)" by auto
  then have "\<forall>x \<in> set (keys r). k < x" by (auto simp: order_le_less)
  then show ?case using Fork by auto
qed

section \<open>Add on a well-formed tree\<close>

text \<open>
  The descent ends at \<open>ins_parent\<close>, after \<open>ins_depth\<close> steps, counted in a 32-bit
  \<^verbatim>\<open>int\<close>.
\<close>

lemma Add_descend_tree:
  "tree_at h p t \<Longrightarrow> wrap32 dep = dep \<Longrightarrow>
   Add_descend h k p cp dep = Some (Inr (ins_parent k t cp, wrap32 (dep + ins_depth k t)))"
proof (induction t arbitrary: p cp dep)
  case Tip
  then show ?case by (simp add: Add_descend.simps)
next
  case (Fork l a x r)
  from Fork.prems(1) obtain n where p: "p = Some a" and n: "load h (Some a) = Inr n"
    and k: "key n = x" and l: "tree_at h (left n) l" and r: "tree_at h (right n) r"
    by (auto split: sum.splits)
  have w: "wrap32 (wrap32 (dep + 1)) = wrap32 (dep + 1)" by (rule wrap32_idem)
  have e: "wrap32 (wrap32 (dep + 1) + y) = wrap32 (dep + (1 + y))" for y
    by (simp add: wrap32_add_left add.assoc)
  show ?case
    by (subst Add_descend.simps)
      (simp add: p n k Fork.IH(1) [OF l w] Fork.IH(2) [OF r w] e)
qed

text \<open>The six writes of the linking code, in one store.\<close>

lemma Add_attach_eq:
  assumes "load h (Some c) = Inr pn"
  shows "Add_attach (h @ [Some (Node_ctor k d)]) (length h) (Some c) = Inr (attached h k d c pn)"
proof -
  from assms have c: "c < length h" and hc: "h ! c = Some pn" by (simp_all add: load_Some)
  show ?thesis using c hc
    by (simp add: Add_attach_def modify_def load_def bindE_def Node_ctor_def attached_def
        nth_append list_update_append list_update_swap)
qed

lemma load_attached_other:
  "a < length h \<Longrightarrow> a \<noteq> c \<Longrightarrow> load (attached h k d c pn) (Some a) = load h (Some a)"
  by (simp add: load_def attached_def nth_append)

lemma load_attached_new:
  "c < length h \<Longrightarrow>
   load (attached h k d c pn) (Some (length h)) =
     Inr \<lparr>key = k, data = d, left = None, right = None, parent = Some c\<rparr>"
  by (simp add: load_def attached_def nth_append)

lemma load_attached_parent:
  "c < length h \<Longrightarrow>
   load (attached h k d c pn) (Some c) =
     Inr (if k < key pn then pn\<lparr>left := Some (length h)\<rparr> else pn\<lparr>right := Some (length h)\<rparr>)"
  by (simp add: load_def attached_def nth_append)

lemma tree_at_attached_frame:
  assumes "tree_at h p t" "c \<notin> set (addrs t)"
  shows "tree_at (attached h k d c pn) p t"
proof (rule tree_at_frame [OF assms(1)], rule ballI)
  fix a assume a: "a \<in> set (addrs t)"
  then have "a < length h" using tree_at_addrs_bound [OF assms(1)] by simp
  moreover have "a \<noteq> c" using a assms(2) by auto
  ultimately show "load (attached h k d c pn) (Some a) = load h (Some a)"
    by (rule load_attached_other)
qed

text \<open>Linking the new cell below \<open>ins_parent\<close> turns the shape \<open>t\<close> into \<open>ins b k t\<close>.\<close>

lemma tree_at_attached:
  assumes "tree_at h p t" "distinct (addrs t)" "t \<noteq> Tip"
    and "ins_parent k t cp = Some c" "load h (Some c) = Inr pn"
  shows "tree_at (attached h k d c pn) p (ins (length h) k t)"
  using assms
proof (induction t arbitrary: p cp)
  case Tip
  then show ?case by simp
next
  case (Fork l a x r)
  from Fork.prems(1) obtain n where p: "p = Some a" and n: "load h (Some a) = Inr n"
    and kx: "key n = x" and l: "tree_at h (left n) l" and r: "tree_at h (right n) r"
    by (auto split: sum.splits)
  from Fork.prems(2) have dl: "distinct (addrs l)" and dr: "distinct (addrs r)"
    and al: "a \<notin> set (addrs l)" and ar: "a \<notin> set (addrs r)"
    and lr: "set (addrs l) \<inter> set (addrs r) = {}" by auto
  have a_lt: "a < length h" using n by (simp add: load_Some)
  have c_lt: "c < length h" using Fork.prems(5) by (simp add: load_Some)
  let ?h = "attached h k d c pn"
  let ?b = "length h"
  have new: "load ?h (Some ?b) = Inr \<lparr>key = k, data = d, left = None, right = None, parent = Some c\<rparr>"
    using c_lt by (rule load_attached_new)
  have leaf: "tree_at ?h (Some ?b) (Fork Tip ?b k Tip)" using new by simp
  show ?case
  proof (cases "k < x")
    case True
    show ?thesis
    proof (cases "l = Tip")
      case True
      with \<open>k < x\<close> Fork.prems(4) have c: "c = a" by simp
      with Fork.prems(5) n have pn: "pn = n" by simp
      have ln: "left n = None" using l True by simp
      have "load ?h (Some a) = Inr (n\<lparr>left := Some ?b\<rparr>)"
        using load_attached_parent [OF c_lt, of k d pn] \<open>k < x\<close> kx c pn by simp
      moreover have "tree_at ?h (right n) r"
        using tree_at_attached_frame [OF r] ar c by simp
      ultimately show ?thesis using p kx leaf True \<open>k < x\<close> by simp
    next
      case False
      have ip: "ins_parent k l (Some a) = Some c" using Fork.prems(4) \<open>k < x\<close> by simp
      from ins_parent_in [OF False, of k "Some a"] ip have cl: "c \<in> set (addrs l)" by auto
      have ca: "c \<noteq> a" using cl al by auto
      have cr: "c \<notin> set (addrs r)" using cl lr by auto
      have "tree_at ?h (left n) (ins ?b k l)"
        using Fork.IH(1) [OF l dl False ip Fork.prems(5)] .
      moreover have "tree_at ?h (right n) r" using tree_at_attached_frame [OF r cr] .
      moreover have "load ?h (Some a) = Inr n"
        using load_attached_other [OF a_lt, of c k d pn] ca n by simp
      ultimately show ?thesis using p kx \<open>k < x\<close> by simp
    qed
  next
    case nlt: False
    show ?thesis
    proof (cases "r = Tip")
      case True
      with nlt Fork.prems(4) have c: "c = a" by simp
      with Fork.prems(5) n have pn: "pn = n" by simp
      have "load ?h (Some a) = Inr (n\<lparr>right := Some ?b\<rparr>)"
        using load_attached_parent [OF c_lt, of k d pn] nlt kx c pn by simp
      moreover have "tree_at ?h (left n) l"
        using tree_at_attached_frame [OF l] al c by simp
      ultimately show ?thesis using p kx leaf True nlt by simp
    next
      case False
      have ip: "ins_parent k r (Some a) = Some c" using Fork.prems(4) nlt by simp
      from ins_parent_in [OF False, of k "Some a"] ip have cr: "c \<in> set (addrs r)" by auto
      have ca: "c \<noteq> a" using cr ar by auto
      have cl: "c \<notin> set (addrs l)" using cr lr by auto
      have "tree_at ?h (right n) (ins ?b k r)"
        using Fork.IH(2) [OF r dr False ip Fork.prems(5)] .
      moreover have "tree_at ?h (left n) l" using tree_at_attached_frame [OF l cl] .
      moreover have "load ?h (Some a) = Inr n"
        using load_attached_other [OF a_lt, of c k d pn] ca n by simp
      ultimately show ?thesis using p kx nlt by simp
    qed
  qed
qed

text \<open>\<^verbatim>\<open>Add\<close> on a non-empty tree, and on an empty one with a valid depth pointer.\<close>

lemma Add_nonempty:
  assumes "wf_tree s t" "t \<noteq> Tip"
  shows "\<exists>c pn. ins_parent k t None = Some c \<and> load (heap s) (Some c) = Inr pn \<and>
     Add d k depth s =
       Some (Inr (length (heap s),
                  (case depth of None \<Rightarrow> None | Some v \<Rightarrow> Some (wrap32 (ins_depth k t + 1))),
                  (ChangeSize 1 (s\<lparr>heap := attached (heap s) k d c pn\<rparr>))
                    \<lparr>nodeTot_m := wrap32 (nodeTot_m s + 1)\<rparr>))"
proof -
  from assms have t: "tree_at (heap s) (root_m s) t" and dist: "distinct (addrs t)"
    by (simp_all add: wf_tree_def)
  from ins_parent_in [OF assms(2), of k None] obtain c
    where c: "ins_parent k t None = Some c" and cin: "c \<in> set (addrs t)" by auto
  from tree_at_addrs_live [OF t cin] obtain pn where pn: "load (heap s) (Some c) = Inr pn" by auto
  let ?h0 = "heap s @ [Some (Node_ctor k d)]"
  have t0: "tree_at ?h0 (root_m s) t"
  proof (rule tree_at_frame [OF t], rule ballI)
    fix a assume "a \<in> set (addrs t)"
    then have "a < length (heap s)" using tree_at_addrs_bound [OF t] by simp
    then show "load ?h0 (Some a) = load (heap s) (Some a)" by (simp add: load_def nth_append)
  qed
  obtain b where root: "root_m s = Some b" using t assms(2) by (cases t) auto
  have desc: "Add_descend ?h0 k (root_m s) None 0 = Some (Inr (Some c, wrap32 (ins_depth k t)))"
    using Add_descend_tree [OF t0, of 0 k None] c by (simp add: wrap32_id)
  have att: "Add_attach ?h0 (length (heap s)) (Some c) = Inr (attached (heap s) k d c pn)"
    using Add_attach_eq [OF pn] .
  have "Add d k depth s =
       Some (Inr (length (heap s),
                  (case depth of None \<Rightarrow> None | Some v \<Rightarrow> Some (wrap32 (ins_depth k t + 1))),
                  (ChangeSize 1 (s\<lparr>heap := attached (heap s) k d c pn\<rparr>))
                    \<lparr>nodeTot_m := wrap32 (nodeTot_m s + 1)\<rparr>))"
    using desc
    by (cases depth)
      (simp_all add: Add_def new_node_def root att bindE_def Let_def ChangeSize_def
        wrap32_add_left)
  then show ?thesis using c pn by blast
qed

lemma Add_nonempty_wf:
  assumes "wf_tree s t" "t \<noteq> Tip"
  shows "\<exists>dp s'. Add d k depth s = Some (Inr (length (heap s), dp, s')) \<and>
           wf_tree s' (ins (length (heap s)) k t) \<and>
           dp = (case depth of None \<Rightarrow> None | Some v \<Rightarrow> Some (wrap32 (ins_depth k t + 1))) \<and>
           size_m s' = (if 0 < wrap32 (size_m s + 1) then wrap32 (size_m s + 1) else size_m s) \<and>
           nodeTot_m s' = wrap32 (nodeTot_m s + 1) \<and> root_m s' = root_m s \<and>
           maxSize_m s' = maxSize_m s"
proof -
  from assms have t: "tree_at (heap s) (root_m s) t" and dist: "distinct (addrs t)"
    by (simp_all add: wf_tree_def)
  from Add_nonempty [OF assms, of k d depth] obtain c pn
    where c: "ins_parent k t None = Some c" and pn: "load (heap s) (Some c) = Inr pn"
      and add: "Add d k depth s =
       Some (Inr (length (heap s),
                  (case depth of None \<Rightarrow> None | Some v \<Rightarrow> Some (wrap32 (ins_depth k t + 1))),
                  (ChangeSize 1 (s\<lparr>heap := attached (heap s) k d c pn\<rparr>))
                    \<lparr>nodeTot_m := wrap32 (nodeTot_m s + 1)\<rparr>))" by blast
  let ?s' = "(ChangeSize 1 (s\<lparr>heap := attached (heap s) k d c pn\<rparr>))
               \<lparr>nodeTot_m := wrap32 (nodeTot_m s + 1)\<rparr>"
  have h': "heap ?s' = attached (heap s) k d c pn" and r': "root_m ?s' = root_m s"
    by (simp_all add: ChangeSize_def)
  have "tree_at (heap ?s') (root_m ?s') (ins (length (heap s)) k t)"
    unfolding h' r' using tree_at_attached [OF t dist assms(2) c pn] .
  moreover have "length (heap s) \<notin> set (addrs t)" using tree_at_addrs_bound [OF t] by auto
  then have "distinct (addrs (ins (length (heap s)) k t))" using dist by (rule distinct_addrs_ins [rotated])
  ultimately have "wf_tree ?s' (ins (length (heap s)) k t)" by (simp add: wf_tree_def)
  moreover have "size_m ?s' = (if 0 < wrap32 (size_m s + 1) then wrap32 (size_m s + 1) else size_m s)"
    "nodeTot_m ?s' = wrap32 (nodeTot_m s + 1)" "maxSize_m ?s' = maxSize_m s"
    by (simp_all add: ChangeSize_def)
  ultimately show ?thesis using add r' by blast
qed

lemma Add_empty_wf:
  assumes "root_m s = None"
  shows "Add d k (Some v) s =
           Some (Inr (length (heap s), Some 1,
             s\<lparr>heap := heap s @ [Some (Node_ctor k d)], root_m := Some (length (heap s)),
               nodeTot_m := wrap32 (nodeTot_m s + 1)\<rparr>))"
    and "wf_tree (s\<lparr>heap := heap s @ [Some (Node_ctor k d)], root_m := Some (length (heap s)),
               nodeTot_m := wrap32 (nodeTot_m s + 1)\<rparr>) (ins (length (heap s)) k Tip)"
  using assms by (simp_all add: Add_def new_node_def wf_tree_def load_def Node_ctor_def)

text \<open>A run of insertions: every \<^verbatim>\<open>Add\<close> succeeds, for any keys.\<close>

lemma add_all_wf:
  assumes "wf_tree s t" and "ordered t"
  shows "\<exists>s' t'. add_all d ks s = Some (Inr s') \<and> wf_tree s' t' \<and> ordered t' \<and>
           mset (keys t') = mset (keys t) + mset ks"
  using assms
proof (induction ks arbitrary: s t)
  case Nil
  then show ?case by auto
next
  case (Cons k ks)
  have "\<exists>node dp s1. Add d k (Some 0) s = Some (Inr (node, dp, s1)) \<and> wf_tree s1 (ins node k t)"
  proof (cases "t = Tip")
    case True
    then have "root_m s = None" using Cons.prems(1) by (simp add: wf_tree_def)
    from Add_empty_wf(1) [OF this, of d k 0] Add_empty_wf(2) [OF this, of k d] True
    show ?thesis by blast
  next
    case False
    from Add_nonempty_wf [OF Cons.prems(1) False, of d k "Some 0"] show ?thesis by blast
  qed
  then obtain node dp s1 where add: "Add d k (Some 0) s = Some (Inr (node, dp, s1))"
    and wf1: "wf_tree s1 (ins node k t)" by blast
  have "ordered (ins node k t)" using Cons.prems(2) by (rule ordered_ins)
  from Cons.IH [OF wf1 this] obtain s' t' where
    "add_all d ks s1 = Some (Inr s')" "wf_tree s' t'" "ordered t'"
    "mset (keys t') = mset (keys (ins node k t)) + mset ks" by blast
  then show ?case using add by auto
qed

lemma add_all_counts:
  assumes "wf_tree s t" and "t \<noteq> Tip" and "0 \<le> size_m s"
    and "size_m s + int (length ks) < 2147483648"
  shows "\<exists>s' t'. add_all d ks s = Some (Inr s') \<and> wf_tree s' t' \<and>
           length (addrs t') = length (addrs t) + length ks \<and>
           size_m s' = size_m s + int (length ks)"
  using assms
proof (induction ks arbitrary: s t)
  case Nil
  then show ?case by auto
next
  case (Cons k ks)
  from Add_nonempty_wf [OF Cons.prems(1,2), of d k "Some 0"] obtain dp s1 where
    add: "Add d k (Some 0) s = Some (Inr (length (heap s), dp, s1))"
    and wf1: "wf_tree s1 (ins (length (heap s)) k t)"
    and sz: "size_m s1 = (if 0 < wrap32 (size_m s + 1) then wrap32 (size_m s + 1) else size_m s)"
    by blast
  have ne: "ins (length (heap s)) k t \<noteq> Tip" by (cases t) auto
  have "wrap32 (size_m s + 1) = size_m s + 1"
    using Cons.prems(3,4) by (intro wrap32_id) simp_all
  then have sz1: "size_m s1 = size_m s + 1" using sz Cons.prems(3) by simp
  then have nn: "0 \<le> size_m s1" using Cons.prems(3) by simp
  have bd: "size_m s1 + int (length ks) < 2147483648" using sz1 Cons.prems(4) by simp
  from Cons.IH [OF wf1 ne nn bd] obtain s' t' where
    "add_all d ks s1 = Some (Inr s')" "wf_tree s' t'"
    "length (addrs t') = length (addrs (ins (length (heap s)) k t)) + length ks"
    "size_m s' = size_m s1 + int (length ks)" by blast
  then show ?case using add sz1 by auto
qed

text \<open>
  Starting from the empty tree, the size is one short of the number of nodes after any
  non-empty run of insertions (of fewer than \<open>2^31\<close> keys): the first \<^verbatim>\<open>Add\<close> does not
  count.
\<close>

lemma add_all_size_one_short:
  assumes "int (length ks) < 2147483648"
  shows "\<exists>s t. add_all d (k # ks) BSTree_new = Some (Inr s) \<and> wf_tree s t \<and>
         length (addrs t) = length (k # ks) \<and> size_m s = int (length (k # ks)) - 1"
proof -
  let ?s1 = "BSTree_new\<lparr>heap := heap BSTree_new @ [Some (Node_ctor k d)],
               root_m := Some (length (heap BSTree_new)),
               nodeTot_m := wrap32 (nodeTot_m BSTree_new + 1)\<rparr>"
  have r: "root_m BSTree_new = None" by (simp add: BSTree_new_def)
  have add: "Add d k (Some 0) BSTree_new = Some (Inr (length (heap BSTree_new), Some 1, ?s1))"
    using Add_empty_wf(1) [OF r] .
  have wf1: "wf_tree ?s1 (ins (length (heap BSTree_new)) k Tip)"
    using Add_empty_wf(2) [OF r] .
  have ne: "ins (length (heap BSTree_new)) k Tip \<noteq> Tip" by simp
  have nn: "0 \<le> size_m ?s1" by (simp add: BSTree_new_def)
  have bd: "size_m ?s1 + int (length ks) < 2147483648" using assms by (simp add: BSTree_new_def)
  from add_all_counts [OF wf1 ne nn bd, of d] obtain s' t' where
    "add_all d ks ?s1 = Some (Inr s')" "wf_tree s' t'"
    "length (addrs t') = length (addrs (ins (length (heap BSTree_new)) k Tip)) + length ks"
    "size_m s' = size_m ?s1 + int (length ks)"
    by blast
  then show ?thesis using add by (auto simp: BSTree_new_def)
qed

section \<open>Find and the in-order walk on a tree\<close>

lemma InOrder_tree: "tree_at h p t \<Longrightarrow> InOrder h p = Some (Inr (keys t))"
proof (induction t arbitrary: p)
  case Tip
  then show ?case by (simp add: InOrder.simps)
next
  case (Fork l a x r)
  from Fork.prems obtain n where p: "p = Some a" and n: "load h (Some a) = Inr n"
    and k: "key n = x" and l: "tree_at h (left n) l" and r: "tree_at h (right n) r"
    by (auto split: sum.splits)
  show ?case
    by (subst InOrder.simps) (simp add: p n k Fork.IH(1)[OF l] Fork.IH(2)[OF r] bindE_def)
qed

lemma FindRecurse_tree: "tree_at h p t \<Longrightarrow> FindRecurse h k p = Some (Inr (lookup k t))"
proof (induction t arbitrary: p)
  case Tip
  then show ?case by (simp add: FindRecurse.simps)
next
  case (Fork l a x r)
  from Fork.prems obtain n where p: "p = Some a" and n: "load h (Some a) = Inr n"
    and k: "key n = x" and l: "tree_at h (left n) l" and r: "tree_at h (right n) r"
    by (auto split: sum.splits)
  show ?case
    by (subst FindRecurse.simps) (auto simp: p n k Fork.IH(1)[OF l] Fork.IH(2)[OF r])
qed

lemma lookup_present:
  "ordered t \<Longrightarrow> tree_at h p t \<Longrightarrow> k \<in> set (keys t) \<Longrightarrow>
   \<exists>a n. lookup k t = Some a \<and> a \<in> set (addrs t) \<and> load h (Some a) = Inr n \<and> key n = k"
proof (induction t arbitrary: p)
  case Tip
  then show ?case by simp
next
  case (Fork l a x r)
  from Fork.prems(2) obtain n where p: "p = Some a" and n: "load h (Some a) = Inr n"
    and kx: "key n = x" and l: "tree_at h (left n) l" and r: "tree_at h (right n) r"
    by (auto split: sum.splits)
  from Fork.prems(1) have ol: "ordered l" and or: "ordered r"
    and lt: "\<forall>y \<in> set (keys l). y < x" and ge: "\<forall>y \<in> set (keys r). x \<le> y" by auto
  consider "x = k" | "k < x" | "x < k" by linarith
  then show ?case
  proof cases
    case 1
    then show ?thesis using n kx by auto
  next
    case 2
    then have "k \<in> set (keys l)" using Fork.prems(3) ge by auto
    from Fork.IH(1) [OF ol l this] show ?thesis using 2 by auto
  next
    case 3
    then have "k \<in> set (keys r)" using Fork.prems(3) lt by auto
    from Fork.IH(2) [OF or r this] show ?thesis using 3 by auto
  qed
qed

lemma lookup_absent: "k \<notin> set (keys t) \<Longrightarrow> lookup k t = None"
  by (induction t) auto

lemma Find_after_insertions:
  "\<exists>s. add_all d ks BSTree_new = Some (Inr s) \<and>
       (\<forall>k. (k \<in> set ks \<longrightarrow>
               (\<exists>a n. Find k s = Some (Inr (Some a)) \<and> load (heap s) (Some a) = Inr n \<and> key n = k)) \<and>
            (k \<notin> set ks \<longrightarrow> Find k s = Some (Inr None)))"
proof -
  have "wf_tree BSTree_new Tip" "ordered Tip" by (simp_all add: wf_tree_def BSTree_new_def)
  from add_all_wf [OF this, of d ks] obtain s t where
    run: "add_all d ks BSTree_new = Some (Inr s)" and wf: "wf_tree s t" and ord: "ordered t"
    and ms: "mset (keys t) = mset ks" by auto
  from wf have t: "tree_at (heap s) (root_m s) t" by (simp add: wf_tree_def)
  from ms have set: "set (keys t) = set ks" by (rule mset_eq_setD)
  have f: "Find k s = Some (Inr (lookup k t))" for k
    unfolding Find_def using t by (rule FindRecurse_tree)
  have "\<exists>a n. Find k s = Some (Inr (Some a)) \<and> load (heap s) (Some a) = Inr n \<and> key n = k"
    if "k \<in> set ks" for k
    using lookup_present [OF ord t, of k] that set f [of k] by auto
  moreover have "Find k s = Some (Inr None)" if "k \<notin> set ks" for k
    using lookup_absent [of k t] that set f [of k] by simp
  ultimately show ?thesis using run by blast
qed

section \<open>Delete\<close>

text \<open>No path of \<^verbatim>\<open>DeleteKey\<close> writes \<^verbatim>\<open>size_\<close> or \<^verbatim>\<open>root_\<close>.\<close>

lemma DeleteKey_size_unchanged:
  assumes "DeleteKey k s = Some (Inr (b, s'))"
  shows "size_m s' = size_m s \<and> root_m s' = root_m s"
proof -
  from assms obtain f where f: "Find k s = Some f"
    by (cases "Find k s") (simp_all add: DeleteKey_def)
  show ?thesis
  proof (cases f)
    case (Inl e)
    with assms f show ?thesis by (simp add: DeleteKey_def)
  next
    case (Inr node)
    show ?thesis
    proof (cases node)
      case None
      with assms f Inr show ?thesis by (simp add: DeleteKey_def)
    next
      case (Some a)
      with assms f Inr obtain r where "DeleteNode (heap s) (Some a) k = Some r"
        and r: "bindE r (\<lambda>(p, h1). Inr (True, s\<lparr>heap := h1\<rparr>)) = Inr (b, s')"
        by (cases "DeleteNode (heap s) (Some a) k") (simp_all add: DeleteKey_def)
      from r show ?thesis by (cases r) (auto simp: bindE_def)
    qed
  qed
qed

text \<open>
  A root without a parent and with at most one child: \<^verbatim>\<open>DeleteKey\<close> of its key ends in
  the read of \<^verbatim>\<open>node->parent->left\<close>, whatever the rest of the tree.
\<close>

lemma DeleteKey_root_at_most_one_child:
  assumes "root_m s = Some a" "load (heap s) (Some a) = Inr n" "parent n = None"
    and "left n = None \<or> right n = None"
  shows "DeleteKey (key n) s = Some (Inl NullDeref)"
proof -
  have f: "Find (key n) s = Some (Inr (Some a))"
    by (simp add: Find_def assms(1)) (subst FindRecurse.simps, simp add: assms(2))
  have "splice (heap s) (Some a) q = Inl NullDeref" for q
    by (simp add: splice_def assms(2,3) bindE_def load_None)
  then have "DeleteNode (heap s) (Some a) (key n) = Some (Inl NullDeref)"
    using assms(4) by (subst DeleteNode.simps) (auto simp: assms(2))
  then show ?thesis using f by (simp add: DeleteKey_def bindE_def)
qed

section \<open>Teardown on a tree whose nodes all carry a payload\<close>

lemma has_payloads_frame:
  "has_payloads h t \<Longrightarrow> (\<forall>a \<in> set (addrs t). load h' (Some a) = load h (Some a)) \<Longrightarrow>
   has_payloads h' t"
  by (induction t) auto

lemma load_released:
  "load (released h as) (Some a) = (if a \<in> set as then Inl UseAfterFree else load h (Some a))"
  by (simp add: load_def released_def)

lemma released_step:
  "a < length h \<Longrightarrow> (released h as)[a := None] = released h (as @ [a])"
  by (rule nth_equalityI) (auto simp: released_def nth_list_update)

lemma released_twice: "released (released h as) bs = released h (as @ bs)"
  by (rule nth_equalityI) (auto simp: released_def)

lemma set_postorder [simp]: "set (postorder t) = set (addrs t)"
  by (induction t) auto

text \<open>
  When every node has a payload, the walk releases exactly the cells of the tree, each
  once, children before their parent.
\<close>

lemma DeleteRecursive_tree:
  assumes "tree_at h p t" "distinct (addrs t)" "has_payloads h t"
  shows "DeleteRecursive h rel p = Some (Inr (released h (postorder t), rel @ postorder t))"
  using assms
proof (induction t arbitrary: h p rel)
  case Tip
  have "released h [] = h" by (rule nth_equalityI) (simp_all add: released_def)
  with Tip show ?case by (simp add: DeleteRecursive.simps)
next
  case (Fork l a k r)
  from Fork.prems(1) obtain n where p: "p = Some a" and n: "load h (Some a) = Inr n"
    and l: "tree_at h (left n) l" and r: "tree_at h (right n) r"
    by (auto split: sum.splits)
  from Fork.prems(2) have dl: "distinct (addrs l)" and dr: "distinct (addrs r)"
    and al: "a \<notin> set (addrs l)" and ar: "a \<notin> set (addrs r)"
    and lr: "set (addrs l) \<inter> set (addrs r) = {}" by auto
  from Fork.prems(3) n have dn: "data n \<noteq> None" and pl: "has_payloads h l"
    and pr: "has_payloads h r" by auto
  have a_lt: "a < length h" using n by (simp add: load_Some)
  let ?h1 = "released h (postorder l)"
  let ?h2 = "released h (postorder l @ postorder r)"
  have left: "DeleteRecursive h rel (left n) = Some (Inr (?h1, rel @ postorder l))"
    using Fork.IH(1) [OF l dl pl] .
  have n1: "load ?h1 (Some a) = Inr n" using al n by (simp add: load_released)
  have agree: "\<forall>b \<in> set (addrs r). load ?h1 (Some b) = load h (Some b)"
    using lr by (auto simp: load_released)
  have r1: "tree_at ?h1 (right n) r" using tree_at_frame [OF r agree] .
  have pr1: "has_payloads ?h1 r" using has_payloads_frame [OF pr agree] .
  have right: "DeleteRecursive ?h1 (rel @ postorder l) (right n) =
      Some (Inr (?h2, rel @ postorder l @ postorder r))"
    using Fork.IH(2) [OF r1 dr pr1, of "rel @ postorder l"] by (simp add: released_twice)
  have n2: "load ?h2 (Some a) = Inr n" using al ar n by (simp add: load_released)
  have len2: "length ?h2 = length h" by (simp add: released_def)
  have fin: "bindE (modify ?h2 (Some a) (\<lambda>c. c\<lparr>data := None\<rparr>)) (\<lambda>h3.
               bindE (delete_node h3 (Some a)) (\<lambda>h4. Inr (h4, xs)))
             = Inr (released h (postorder (Fork l a k r)), xs)" for xs
    using a_lt n2 len2 released_step [of a h "postorder l @ postorder r"]
    by (simp add: modify_def delete_node_def bindE_def load_def)
  show ?case
    by (subst DeleteRecursive.simps) (simp add: p n dn left bindE_Inr n1 right fin)
qed

section \<open>The claims\<close>

text \<open>Unfolding sets for running the model on the example trees.\<close>

lemmas add_eval = BSTree_new_def Add_def new_node_def Node_ctor_def Add_descend.simps
      Add_attach_def modify_def load_def bindE_def ChangeSize_def wrap32_def

lemmas del_eval = DeleteKey_def Find_def FindRecurse.simps DeleteNode.simps splice_def relocate_def
      FindMin.simps modify_def load_def bindE_def delete_node_def

text \<open>
  Claim C1, as stated, fails: in the tree that holds the single key 5, \<^verbatim>\<open>Add(5)\<close> does
  not fail. It returns a new node (address 1), and the store and the size have changed.
\<close>

theorem Add_duplicate_counterexample:
  "wf_tree single_5 (Fork Tip 0 5 Tip) \<and> 5 \<in> set (keys (Fork Tip 0 5 Tip)) \<and>
   Add (Some 7) 5 (Some 0) single_5 = Some (Inr (1, Some 2, double_5)) \<and>
   heap double_5 \<noteq> heap single_5 \<and> Size double_5 \<noteq> Size single_5"
  by (simp add: single_5_def double_5_def wf_tree_def Size_def add_eval)

text \<open>
  Claim C1, amended: \<^verbatim>\<open>Add\<close> has no duplicate-key condition. For every well-formed tree
  and every key already present in it, \<^verbatim>\<open>Add\<close> succeeds: it allocates one new node and
  hangs it as a leaf where the descent ends (an equal key is passed on the right), so
  the tree has one node more and the key occurs once more among the keys. As long as
  the counters are below the largest \<^verbatim>\<open>int\<close>, \<^verbatim>\<open>nodeTot_\<close> grows by one and \<^verbatim>\<open>size_\<close>
  grows by one when the sum is positive.
\<close>

theorem Add_duplicate_inserts:
  assumes "wf_tree s t" and "k \<in> set (keys t)"
  shows "\<exists>dp s'. Add d k depth s = Some (Inr (length (heap s), dp, s')) \<and>
           wf_tree s' (ins (length (heap s)) k t) \<and>
           length (addrs (ins (length (heap s)) k t)) = length (addrs t) + 1 \<and>
           mset (keys (ins (length (heap s)) k t)) = add_mset k (mset (keys t)) \<and>
           (- 2147483648 \<le> size_m s \<and> size_m s < 2147483647 \<longrightarrow>
              size_m s' = (if 0 < size_m s + 1 then size_m s + 1 else size_m s)) \<and>
           (- 2147483648 \<le> nodeTot_m s \<and> nodeTot_m s < 2147483647 \<longrightarrow>
              nodeTot_m s' = nodeTot_m s + 1)"
proof -
  from assms(2) have "t \<noteq> Tip" by auto
  from Add_nonempty_wf [OF assms(1) this, of d k depth] obtain dp s' where
    add: "Add d k depth s = Some (Inr (length (heap s), dp, s'))"
    and wf: "wf_tree s' (ins (length (heap s)) k t)"
    and sz: "size_m s' = (if 0 < wrap32 (size_m s + 1) then wrap32 (size_m s + 1) else size_m s)"
    and nt: "nodeTot_m s' = wrap32 (nodeTot_m s + 1)" by blast
  have "size_m s' = (if 0 < size_m s + 1 then size_m s + 1 else size_m s)"
    if "- 2147483648 \<le> size_m s \<and> size_m s < 2147483647"
  proof -
    have "wrap32 (size_m s + 1) = size_m s + 1" using that by (intro wrap32_id) simp_all
    with sz show ?thesis by simp
  qed
  moreover have "nodeTot_m s' = nodeTot_m s + 1"
    if "- 2147483648 \<le> nodeTot_m s \<and> nodeTot_m s < 2147483647"
  proof -
    have "wrap32 (nodeTot_m s + 1) = nodeTot_m s + 1" using that by (intro wrap32_id) simp_all
    with nt show ?thesis by simp
  qed
  ultimately show ?thesis using add wf by auto
qed

text \<open>Claim C1, amended, on the tree that holds the single key 5.\<close>

theorem Add_duplicate_inserts_witness:
  "wf_tree single_5 (Fork Tip 0 5 Tip) \<and> 5 \<in> set (keys (Fork Tip 0 5 Tip)) \<and>
   - 2147483648 \<le> size_m single_5 \<and> size_m single_5 < 2147483647 \<and>
   - 2147483648 \<le> nodeTot_m single_5 \<and> nodeTot_m single_5 < 2147483647 \<and>
   (\<exists>dp s'. Add (Some 7) 5 (Some 0) single_5 = Some (Inr (1, dp, s')) \<and>
      wf_tree s' (Fork Tip 0 5 (Fork Tip 1 5 Tip)) \<and> size_m s' = 1 \<and> nodeTot_m s' = 2)"
proof -
  have w: "wf_tree single_5 (Fork Tip 0 5 Tip)"
    by (simp add: single_5_def wf_tree_def load_def)
  have k: "5 \<in> set (keys (Fork Tip 0 5 Tip))" by simp
  show ?thesis
    using w k Add_duplicate_inserts [OF w k, of "Some 7" "Some 0"]
    by (simp add: single_5_def)
qed

text \<open>
  Claim C2 (\<^verbatim>\<open>size_\<close> equals the number of nodes reachable from the root, from the first
  insertion on) at its failing input: the first \<^verbatim>\<open>Add\<close> on an empty tree returns before
  \<^verbatim>\<open>ChangeSize(1)\<close>, so one node is reachable and \<^verbatim>\<open>size_\<close> is 0.
\<close>

theorem first_Add_size_stays_zero:
  "Add (Some 7) 5 (Some 0) BSTree_new = Some (Inr (0, Some 1, single_5)) \<and>
   wf_tree single_5 (Fork Tip 0 5 Tip) \<and> length (addrs (Fork Tip 0 5 Tip)) = 1 \<and>
   Size single_5 = 0"
  by (simp add: single_5_def wf_tree_def Size_def add_eval)

text \<open>
  Claim C3 (after a successful delete of \<open>k\<close>, \<^verbatim>\<open>Find(k)\<close> is absent and the size is one
  less) at its failing input: in the tree of keys 2, 1, 3, \<^verbatim>\<open>DeleteKey(1)\<close> returns true
  and \<^verbatim>\<open>Find(1)\<close> is absent afterwards, but the size is 2 before and 2 after.
\<close>

theorem DeleteKey_keeps_size:
  "add_all (Some 7) [2, 1, 3] BSTree_new = Some (Inr tree_213) \<and>
   DeleteKey 1 tree_213 = Some (Inr (True, tree_213_less_1)) \<and>
   Find 1 tree_213_less_1 = Some (Inr None) \<and>
   Size tree_213 = 2 \<and> Size tree_213_less_1 = 2"
  by (simp add: tree_213_def tree_213_less_1_def Size_def add_eval del_eval)

text \<open>
  Claim C4 (deleting a root with at most one child does not dereference the absent
  parent and moves the root pointer to the child) at its failing input: in the chain of
  keys 1, 2, 3 the root holds key 1, has one child and no parent; \<^verbatim>\<open>DeleteKey(1)\<close> reads
  \<^verbatim>\<open>node->parent->left\<close> through the null parent.
\<close>

theorem DeleteKey_root_null_parent:
  "add_all (Some 7) [1, 2, 3] BSTree_new = Some (Inr chain_123) \<and>
   root_m chain_123 = Some 0 \<and>
   load (heap chain_123) (Some 0) =
     Inr \<lparr>key = 1, data = Some 7, left = None, right = Some 1, parent = None\<rparr> \<and>
   DeleteKey 1 chain_123 = Some (Inl NullDeref)"
  by (simp add: chain_123_def add_eval del_eval)

text \<open>
  Claim C5 (the single child of a removed node gets the removed node's parent as its
  parent) at its failing input: in the chain of keys 1, 2, 3, \<^verbatim>\<open>DeleteKey(2)\<close> links
  cell 2 (key 3) below cell 0 (key 1), but the parent field of cell 2 still names
  cell 1, which is released; a following \<^verbatim>\<open>DeleteKey(3)\<close> reads that released cell.
\<close>

theorem DeleteKey_stale_parent:
  "DeleteKey 2 chain_123 = Some (Inr (True, chain_123_less_2)) \<and>
   load (heap chain_123_less_2) (Some 0) =
     Inr \<lparr>key = 1, data = Some 7, left = None, right = Some 2, parent = None\<rparr> \<and>
   load (heap chain_123_less_2) (Some 2) =
     Inr \<lparr>key = 3, data = Some 7, left = None, right = None, parent = Some 1\<rparr> \<and>
   load (heap chain_123_less_2) (Some 1) = Inl UseAfterFree \<and>
   DeleteKey 3 chain_123_less_2 = Some (Inl UseAfterFree)"
  by (simp add: chain_123_def chain_123_less_2_def del_eval)

text \<open>
  Claim C6: for every list of pairwise distinct keys, inserting them in order into an
  empty tree succeeds, the resulting tree satisfies the ordering invariant (left subtree
  strictly smaller, right subtree strictly greater at every node), and its in-order
  walk yields the keys in strictly increasing order.
\<close>

theorem unique_insertions_inorder_increasing:
  assumes "distinct ks"
  shows "\<exists>s t. add_all d ks BSTree_new = Some (Inr s) \<and> wf_tree s t \<and> bst t \<and>
           InOrder (heap s) (root_m s) = Some (Inr (sort ks)) \<and> sorted_wrt (<) (sort ks)"
proof -
  have "wf_tree BSTree_new Tip" "ordered Tip" by (simp_all add: wf_tree_def BSTree_new_def)
  from add_all_wf [OF this, of d ks] obtain s t where
    run: "add_all d ks BSTree_new = Some (Inr s)" and wf: "wf_tree s t" and ord: "ordered t"
    and ms: "mset (keys t) = mset ks" by auto
  have "sorted (keys t)" using ord by (rule ordered_sorted)
  with ms have ks: "keys t = sort ks" by (simp add: properties_for_sort)
  have "distinct (keys t)" using ms assms by (metis mset_eq_imp_distinct_iff)
  with ord have "bst t" by (rule ordered_distinct_bst)
  moreover have "InOrder (heap s) (root_m s) = Some (Inr (sort ks))"
    using InOrder_tree [of "heap s" "root_m s" t] wf ks by (simp add: wf_tree_def)
  moreover have "sorted_wrt (<) (sort ks)" using assms by (simp add: strict_sorted_iff)
  ultimately show ?thesis using run wf by blast
qed

text \<open>Claim C6 on the keys 5, 3, 8.\<close>

theorem unique_insertions_inorder_increasing_witness:
  "distinct [5, 3, 8 :: int] \<and>
   (\<exists>s t. add_all (Some 7) [5, 3, 8] BSTree_new = Some (Inr s) \<and> wf_tree s t \<and> bst t \<and>
      InOrder (heap s) (root_m s) = Some (Inr [3, 5, 8]) \<and> sorted_wrt (<) [3, 5, 8 :: int])"
proof -
  have d: "distinct [5, 3, 8 :: int]" by simp
  show ?thesis using d unique_insertions_inorder_increasing [OF d, of "Some 7"] by simp
qed

text \<open>
  Claim C7 (teardown releases every reachable node exactly once, whatever the
  payloads) at its failing input: when the nodes carry no payload, the destructor's
  walk stops at the root and releases nothing; three nodes stay reachable.
\<close>

theorem teardown_skips_null_payload:
  "add_all None [2, 1, 3] BSTree_new = Some (Inr no_payload_213) \<and>
   wf_tree no_payload_213 (Fork (Fork Tip 1 1 Tip) 0 2 (Fork Tip 2 3 Tip)) \<and>
   BSTree_dtor no_payload_213 = Some (Inr (heap no_payload_213, []))"
  by (simp add: no_payload_213_def wf_tree_def BSTree_dtor_def DeleteRecursive.simps add_eval)

text \<open>
  Claim C8: on every ordered tree \<^verbatim>\<open>Find(k)\<close> returns what the descent of the spec
  returns (equal: the node; smaller: left; greater: right; exhausted: absent); for a key
  in the tree that is a live node holding the key, for a key not in the tree it is
  absent, and neither is an error.
\<close>

theorem Find_descent:
  assumes "tree_at (heap s) (root_m s) t" and "ordered t"
  shows "Find k s = Some (Inr (lookup k t)) \<and>
         (k \<in> set (keys t) \<longrightarrow>
            (\<exists>a n. Find k s = Some (Inr (Some a)) \<and> load (heap s) (Some a) = Inr n \<and> key n = k)) \<and>
         (k \<notin> set (keys t) \<longrightarrow> Find k s = Some (Inr None))"
proof -
  have f: "Find k s = Some (Inr (lookup k t))"
    unfolding Find_def using assms(1) by (rule FindRecurse_tree)
  moreover have "\<exists>a n. Find k s = Some (Inr (Some a)) \<and> load (heap s) (Some a) = Inr n \<and> key n = k"
    if "k \<in> set (keys t)"
    using lookup_present [OF assms(2) assms(1) that] f by auto
  moreover have "Find k s = Some (Inr None)" if "k \<notin> set (keys t)"
    using lookup_absent [OF that] f by simp
  ultimately show ?thesis by blast
qed

text \<open>Claim C8 on the tree of keys 2, 1, 3, for the keys 3 (present) and 4 (absent).\<close>

theorem Find_descent_witness:
  "tree_at (heap tree_213) (root_m tree_213) (Fork (Fork Tip 1 1 Tip) 0 2 (Fork Tip 2 3 Tip)) \<and>
   ordered (Fork (Fork Tip 1 1 Tip) 0 2 (Fork Tip 2 3 Tip)) \<and>
   Find 3 tree_213 = Some (Inr (Some 2)) \<and>
   load (heap tree_213) (Some 2) =
     Inr \<lparr>key = 3, data = Some 7, left = None, right = None, parent = Some 0\<rparr> \<and>
   Find 4 tree_213 = Some (Inr None)"
proof -
  let ?t = "Fork (Fork Tip 1 1 Tip) 0 2 (Fork Tip 2 3 Tip)"
  have t: "tree_at (heap tree_213) (root_m tree_213) ?t"
    by (simp add: tree_213_def load_def)
  have o: "ordered ?t" by simp
  show ?thesis
    using t o Find_descent [OF t o, of 3] Find_descent [OF t o, of 4]
    by (simp add: tree_213_def load_def)
qed

text \<open>
  Claim C9: for every tree and every key not in it, \<^verbatim>\<open>DeleteKey\<close> returns false and the
  tree after the call is the tree before it; so the size, the traversals and the
  maximum depth are the same.
\<close>

theorem DeleteKey_absent_no_change:
  assumes "tree_at (heap s) (root_m s) t" and "k \<notin> set (keys t)"
  shows "\<exists>s'. DeleteKey k s = Some (Inr (False, s')) \<and> s' = s \<and> Size s' = Size s \<and>
           Print None s' = Print None s \<and> InOrder (heap s') (root_m s') = InOrder (heap s) (root_m s) \<and>
           MaxDepth s' = MaxDepth s"
proof -
  have "Find k s = Some (Inr None)"
    unfolding Find_def using FindRecurse_tree [OF assms(1), of k] lookup_absent [OF assms(2)] by simp
  then have "DeleteKey k s = Some (Inr (False, s))" by (simp add: DeleteKey_def)
  then show ?thesis by simp
qed

text \<open>Claim C9 on the tree of keys 2, 1, 3 and the absent key 4.\<close>

theorem DeleteKey_absent_no_change_witness:
  "tree_at (heap tree_213) (root_m tree_213) (Fork (Fork Tip 1 1 Tip) 0 2 (Fork Tip 2 3 Tip)) \<and>
   4 \<notin> set (keys (Fork (Fork Tip 1 1 Tip) 0 2 (Fork Tip 2 3 Tip))) \<and>
   DeleteKey 4 tree_213 = Some (Inr (False, tree_213))"
proof -
  let ?t = "Fork (Fork Tip 1 1 Tip) 0 2 (Fork Tip 2 3 Tip)"
  have t: "tree_at (heap tree_213) (root_m tree_213) ?t"
    by (simp add: tree_213_def load_def)
  have k: "4 \<notin> set (keys ?t)" by simp
  show ?thesis using DeleteKey_absent_no_change [OF t k] by (simp add: tree_213_def load_def)
qed

text \<open>
  Claim C10: on an empty tree \<^verbatim>\<open>Add\<close> writes through the depth pointer with no check:
  a valid pointer receives 1, a null pointer is a null-pointer write. On a non-empty
  well-formed tree the write is guarded: a valid pointer receives the number of nodes
  on the descent plus one (as a 32-bit \<^verbatim>\<open>int\<close>), with a null pointer nothing is written,
  and either way \<^verbatim>\<open>Add\<close> completes, returns the new node and leaves the same tree.
\<close>

theorem Add_null_depth:
  "(root_m s = None \<longrightarrow>
      Add d k None s = Some (Inl NullDeref) \<and>
      (\<exists>s'. Add d k (Some v) s = Some (Inr (length (heap s), Some 1, s')) \<and>
            wf_tree s' (ins (length (heap s)) k Tip))) \<and>
   (wf_tree s t \<and> t \<noteq> Tip \<longrightarrow>
      (\<exists>s'. Add d k None s = Some (Inr (length (heap s), None, s')) \<and>
            Add d k (Some v) s =
              Some (Inr (length (heap s), Some (wrap32 (ins_depth k t + 1)), s')) \<and>
            wf_tree s' (ins (length (heap s)) k t)))"
proof -
  have "Add d k None s = Some (Inl NullDeref) \<and>
      (\<exists>s'. Add d k (Some v) s = Some (Inr (length (heap s), Some 1, s')) \<and>
            wf_tree s' (ins (length (heap s)) k Tip))" if "root_m s = None"
  proof -
    have "Add d k None s = Some (Inl NullDeref)"
      using that by (simp add: Add_def new_node_def)
    then show ?thesis using Add_empty_wf(1) [OF that, of d k v] Add_empty_wf(2) [OF that, of k d]
      by blast
  qed
  moreover have "\<exists>s'. Add d k None s = Some (Inr (length (heap s), None, s')) \<and>
            Add d k (Some v) s =
              Some (Inr (length (heap s), Some (wrap32 (ins_depth k t + 1)), s')) \<and>
            wf_tree s' (ins (length (heap s)) k t)" if "wf_tree s t \<and> t \<noteq> Tip"
  proof -
    from that have w: "wf_tree s t" and n: "t \<noteq> Tip" by simp_all
    from Add_nonempty [OF w n, of k] obtain c pn where
      c: "ins_parent k t None = Some c" and pn: "load (heap s) (Some c) = Inr pn"
      by blast
    let ?s' = "(ChangeSize 1 (s\<lparr>heap := attached (heap s) k d c pn\<rparr>))
                 \<lparr>nodeTot_m := wrap32 (nodeTot_m s + 1)\<rparr>"
    have a: "Add d k depth s =
       Some (Inr (length (heap s),
                  (case depth of None \<Rightarrow> None | Some v \<Rightarrow> Some (wrap32 (ins_depth k t + 1))),
                  ?s'))" for depth
      using Add_nonempty [OF w n, of k d depth] c pn by auto
    from Add_nonempty_wf [OF w n, of d k None] a [of None]
    have "wf_tree ?s' (ins (length (heap s)) k t)" by auto
    then show ?thesis using a [of None] a [of "Some v"] by auto
  qed
  ultimately show ?thesis by blast
qed

text \<open>Claim C10 on the empty tree and on the tree that holds the single key 5.\<close>

theorem Add_null_depth_witness:
  "root_m BSTree_new = None \<and> Add (Some 7) 5 None BSTree_new = Some (Inl NullDeref) \<and>
   Add (Some 7) 5 (Some 0) BSTree_new = Some (Inr (0, Some 1, single_5)) \<and>
   wf_tree single_5 (Fork Tip 0 5 Tip) \<and> Fork Tip 0 5 Tip \<noteq> Tip \<and>
   (\<exists>s'. Add (Some 7) 3 None single_5 = Some (Inr (1, None, s')) \<and>
         Add (Some 7) 3 (Some 0) single_5 = Some (Inr (1, Some 2, s')) \<and>
         wf_tree s' (Fork (Fork Tip 1 3 Tip) 0 5 Tip))"
proof -
  have r: "root_m BSTree_new = None" by (simp add: BSTree_new_def)
  have w: "wf_tree single_5 (Fork Tip 0 5 Tip)" by (simp add: single_5_def wf_tree_def load_def)
  have e: "Add (Some 7) 5 (Some 0) BSTree_new = Some (Inr (0, Some 1, single_5))"
    by (simp add: single_5_def add_eval)
  show ?thesis
    using r w e Add_null_depth [of BSTree_new "Some 7" 5 0 Tip]
      Add_null_depth [of single_5 "Some 7" 3 0 "Fork Tip 0 5 Tip"]
    by (simp add: single_5_def wrap32_def)
qed

end
